theory Spec2Isabelle
  imports Main "HOL-Library.Sublist" "HOL-Library.Multiset"
begin

section \<open>The slide transitions engine (transitions.js)\<close>

text \<open>
  The engine opens a presentation archive with a ZIP library, collects the entries
  named \<^verbatim>\<open>ppt/slides/slideN.xml\<close>, sorts them by \<open>N\<close>, inserts a transition fragment
  into every slide but the first, and packs the archive again. Everything sits in one
  \<^verbatim>\<open>try\<close> block whose handler returns the blob it was given.

  The embedding follows the source line by line. What the source takes from its
  environment is made explicit:
  \<^item> the archive library is a pair of functions (\<open>loadAsync\<close>, \<open>generateAsync\<close>) over an
    arbitrary type of blobs, each of which may fail;
  \<^item> an opened archive is the ordered list of its file entries, path first, in the order
    in which \<^verbatim>\<open>zip.forEach\<close> enumerates them (paths are the keys of an object, hence
    distinct, which is part of \<open>wf_zip\<close>);
  \<^item> reading an entry as a string either gives its text or is rejected (a damaged
    compressed stream is only discovered when the entry is read);
  \<^item> text is a list of 8-bit characters, the UTF-8 form of the JavaScript string. The
    patterns searched for are ASCII, so an occurrence in the UTF-8 form is an occurrence
    in the string and conversely.
\<close>

subsection \<open>Strings\<close>

text \<open>\<^verbatim>\<open>s.indexOf(pat)\<close>: the index of the first occurrence of \<open>pat\<close>, or \<open>-1\<close>.\<close>

fun indexOf :: "string \<Rightarrow> string \<Rightarrow> int" where
  "indexOf [] pat = (if pat = [] then 0 else - 1)"
| "indexOf (c # cs) pat =
     (if prefix pat (c # cs) then 0
      else (let r = indexOf cs pat in if r = - 1 then - 1 else r + 1))"

text \<open>
  \<^verbatim>\<open>s.replace(pat, rep)\<close> with a string pattern: the first occurrence of \<open>pat\<close> is replaced,
  nothing else; without an occurrence the string is returned as it is. The replacement is
  taken literally as long as it holds no dollar sign, which is the case for every
  replacement the engine builds (\<open>replacement_literal\<close> below).
\<close>

fun replace :: "string \<Rightarrow> string \<Rightarrow> string \<Rightarrow> string" where
  "replace [] pat rep = (if pat = [] then rep else [])"
| "replace (c # cs) pat rep =
     (if prefix pat (c # cs) then rep @ drop (length pat) (c # cs)
      else c # replace cs pat rep)"

text \<open>The class \<^verbatim>\<open>\d\<close> of a regular expression: the ten ASCII digits.\<close>

definition is_digit :: "char \<Rightarrow> bool" where
  "is_digit c = (c \<in> set ''0123456789'')"

text \<open>
  \<^verbatim>\<open>/^ppt\/slides\/slide\d+\.xml$/.test(p)\<close>. The digit run is followed by a dot, which
  is no digit, so the run the expression matches is the longest one.
\<close>

definition is_slide_path :: "string \<Rightarrow> bool" where
  "is_slide_path p =
     (prefix ''ppt/slides/slide'' p \<and>
      (let rest = drop 16 p
       in takeWhile is_digit rest \<noteq> [] \<and> dropWhile is_digit rest = ''.xml''))"

text \<open>
  \<^verbatim>\<open>a.match(/slide(\d+)/)\<close>: the leftmost place where \<^verbatim>\<open>slide\<close> is followed by a
  digit; the result is the captured group, the longest digit run there, or \<open>None\<close> for
  JavaScript's \<^verbatim>\<open>null\<close>.
\<close>

fun match_slide :: "string \<Rightarrow> string option" where
  "match_slide [] = None"
| "match_slide (c # cs) =
     (let ds = takeWhile is_digit (drop 5 (c # cs))
      in if prefix ''slide'' (c # cs) \<and> ds \<noteq> [] then Some ds else match_slide cs)"

text \<open>
  \<^verbatim>\<open>parseInt\<close> on a captured digit run: its decimal value. JavaScript holds the value
  in a double, which is exact up to \<open>2 ^ 53 = 9007199254740992\<close>; beyond that the
  comparator sees rounded values. \<open>wf_zip\<close> below keeps the ordinals in the exact range.
\<close>

definition parseInt :: "string \<Rightarrow> nat" where
  "parseInt ds = foldl (\<lambda>n c. 10 * n + (of_char c - 48)) 0 ds"

subsection \<open>The archive\<close>

text \<open>
  The content of a file entry: text that \<^verbatim>\<open>async('string')\<close> delivers, or a stream
  whose read is rejected.
\<close>

datatype zip_object = Text string | Damaged

type_synonym zip = "(string \<times> zip_object) list"

text \<open>
  What can be thrown inside the \<^verbatim>\<open>try\<close> block: \<^verbatim>\<open>loadAsync\<close> rejects, the read of an
  entry rejects, a property of \<^verbatim>\<open>null\<close> is read, \<^verbatim>\<open>generateAsync\<close> rejects.
\<close>

datatype failure =
    CorruptArchive
  | ReadRejected string
  | NullDereference
  | SerializationFailed

record 'b jszip =
  loadAsync :: "'b \<Rightarrow> failure + zip"
  generateAsync :: "zip \<Rightarrow> failure + 'b"

text \<open>\<^verbatim>\<open>await zip.file(p).async('string')\<close>\<close>

definition read_string :: "zip \<Rightarrow> string \<Rightarrow> failure + string" where
  "read_string z p =
     (case map_of z p of
        None \<Rightarrow> Inl NullDereference
      | Some Damaged \<Rightarrow> Inl (ReadRejected p)
      | Some (Text s) \<Rightarrow> Inr s)"

text \<open>
  \<^verbatim>\<open>zip.file(p, s)\<close> for a path that is already in the archive: the entry keeps its
  place and gets the new text. (The engine only writes paths it has just read.)
\<close>

fun write_string :: "zip \<Rightarrow> string \<Rightarrow> string \<Rightarrow> zip" where
  "write_string [] p s = [(p, Text s)]"
| "write_string ((q, c) # z) p s =
     (if q = p then (q, Text s) # z else (q, c) # write_string z p s)"

subsection \<open>The catalog\<close>

definition morph_xml :: string where
  \<open>morph_xml = ''<mc:AlternateContent xmlns:mc="http://schemas.openxmlformats.org/markup-compatibility/2006"><mc:Choice Requires="p159"><p:transition spd="slow" xmlns:p159="http://schemas.microsoft.com/office/powerpoint/2015/09/main"><p159:morph option="byObject"/></p:transition></mc:Choice><mc:Fallback><p:transition spd="slow"><p:fade/></p:transition></mc:Fallback></mc:AlternateContent>''\<close>

definition push_xml :: string where
  \<open>push_xml = ''<p:transition spd="med"><p:push dir="l"/></p:transition>''\<close>

definition cover_xml :: string where
  \<open>cover_xml = ''<p:transition spd="med"><p:cover dir="l"/></p:transition>''\<close>

definition fade_xml :: string where
  \<open>fade_xml = ''<p:transition spd="slow"><p:fade/></p:transition>''\<close>

definition wipe_xml :: string where
  \<open>wipe_xml = ''<p:transition spd="med"><p:wipe dir="d"/></p:transition>''\<close>

definition TRANSITIONS :: "string \<Rightarrow> string option" where
  "TRANSITIONS =
     map_of [(''morph'', morph_xml), (''push'', push_xml), (''cover'', cover_xml),
             (''fade'', fade_xml), (''wipe'', wipe_xml)]"

text \<open>
  Line 37, under the comment \<^verbatim>\<open>Alternating pattern: morph -> push -> morph -> push...\<close>
\<close>

definition TRANSITION_SEQUENCE :: "string list" where
  "TRANSITION_SEQUENCE = [''morph'', ''push'']"

text \<open>
  \<^verbatim>\<open>transXml + '</p:sld>'\<close>, where \<^verbatim>\<open>transXml\<close> is the result of a property lookup:
  a missing key gives \<^verbatim>\<open>undefined\<close>, which the concatenation turns into text.
\<close>

definition concat_closing :: "string option \<Rightarrow> string" where
  "concat_closing transXml =
     (case transXml of None \<Rightarrow> ''undefined'' | Some x \<Rightarrow> x) @ ''</p:sld>''"

subsection \<open>The pipeline\<close>

text \<open>Lines 55 to 59: the paths that pass the test, in enumeration order.\<close>

definition findSlideFiles :: "zip \<Rightarrow> string list" where
  "findSlideFiles z = filter is_slide_path (map fst z)"

text \<open>The ordinal the comparator computes for a path, when the match succeeds.\<close>

definition slide_number :: "string \<Rightarrow> nat option" where
  "slide_number p = map_option parseInt (match_slide p)"

text \<open>
  Lines 62 to 66. The comparator subtracts the two ordinals, so the sort (stable, as
  the language has it) orders by ordinal and keeps the enumeration order among equal
  ordinals. With fewer than two paths the comparator is never called; otherwise every
  path takes part in a comparison, and a path without a match makes the comparator
  dereference \<^verbatim>\<open>null\<close>.
\<close>

definition sortSlides :: "string list \<Rightarrow> failure + string list" where
  "sortSlides ps =
     (if length ps < 2 then Inr ps
      else (case those (map (\<lambda>p. map_option (\<lambda>n. (n, p)) (slide_number p)) ps) of
              None \<Rightarrow> Inl NullDereference
            | Some nps \<Rightarrow> Inr (map snd (sort_key fst nps))))"

text \<open>
  The packages the model is faithful for: distinct paths, and slide ordinals that a
  double holds exactly.
\<close>

definition exact_ordinal :: "string \<Rightarrow> bool" where
  "exact_ordinal p =
     (case slide_number p of None \<Rightarrow> True | Some n \<Rightarrow> n \<le> 9007199254740992)"

definition wf_zip :: "zip \<Rightarrow> bool" where
  "wf_zip z = (distinct (map fst z) \<and> list_all exact_ordinal (findSlideFiles z))"

text \<open>
  The body of the loop of lines 71 to 82 on the text of slide \<open>i\<close>: the text written
  back, or \<open>None\<close> when the slide already holds a transition and nothing is written.
\<close>

definition inject_text :: "nat \<Rightarrow> string \<Rightarrow> string option" where
  "inject_text i slideXml =
     (let transType = TRANSITION_SEQUENCE ! (i mod length TRANSITION_SEQUENCE);
          transXml = TRANSITIONS transType
      in if indexOf slideXml ''<p:transition'' = - 1
         then Some (replace slideXml ''</p:sld>'' (concat_closing transXml))
         else None)"

text \<open>
  The loop, from index \<open>i\<close> over the remaining paths. A read that is rejected leaves the
  loop at once: there is no handler inside it.
\<close>

fun injectLoop :: "nat \<Rightarrow> string list \<Rightarrow> zip \<Rightarrow> failure + zip" where
  "injectLoop i [] z = Inr z"
| "injectLoop i (p # ps) z =
     (case read_string z p of
        Inl e \<Rightarrow> Inl e
      | Inr slideXml \<Rightarrow>
          (case inject_text i slideXml of
             None \<Rightarrow> injectLoop (Suc i) ps z
           | Some xml' \<Rightarrow> injectLoop (Suc i) ps (write_string z p xml')))"

text \<open>Lines 52 to 82: locate, sort, and inject from index 1.\<close>

definition injectTransitions :: "zip \<Rightarrow> failure + zip" where
  "injectTransitions z =
     (case sortSlides (findSlideFiles z) of
        Inl e \<Rightarrow> Inl e
      | Inr slideFiles \<Rightarrow> injectLoop 1 (drop 1 slideFiles) z)"

text \<open>Lines 50 to 99: the \<^verbatim>\<open>try\<close> block and its handler.\<close>

definition tryApply :: "'b jszip \<Rightarrow> 'b \<Rightarrow> 'b" where
  "tryApply lib pptxBlob =
     (case loadAsync lib pptxBlob of
        Inl e \<Rightarrow> pptxBlob
      | Inr z \<Rightarrow>
          (case injectTransitions z of
             Inl e \<Rightarrow> pptxBlob
           | Inr z' \<Rightarrow>
               (case generateAsync lib z' of
                  Inl e \<Rightarrow> pptxBlob
                | Inr modifiedBlob \<Rightarrow> modifiedBlob)))"

text \<open>
  Lines 44 to 48 come before the \<^verbatim>\<open>try\<close> block. When the library is not defined the
  function awaits \<^verbatim>\<open>loadScript\<close>; a rejection there is not handled and rejects the
  promise of \<^verbatim>\<open>applyTransitions\<close>. \<^verbatim>\<open>loadScript\<close> resolves at once when the page
  already holds the script element, loaded or not, and then the first use of the
  library, inside the \<^verbatim>\<open>try\<close> block, raises and the handler returns the blob.
\<close>

text \<open>
  What the function finds on the page: whether \<^verbatim>\<open>JSZip\<close> is defined on entry, whether
  the promise of \<^verbatim>\<open>loadScript\<close> resolves, and whether \<^verbatim>\<open>JSZip\<close> is defined once that
  promise has resolved.
\<close>

record page =
  jszip_defined :: bool
  loadScript_resolves :: bool
  jszip_defined_after :: bool

datatype 'b promise = Resolved 'b | Rejected

definition library_ready :: "page \<Rightarrow> bool" where
  "library_ready pg = (jszip_defined pg \<or> (loadScript_resolves pg \<and> jszip_defined_after pg))"

definition applyTransitions :: "page \<Rightarrow> 'b jszip \<Rightarrow> 'b \<Rightarrow> 'b promise" where
  "applyTransitions pg lib pptxBlob =
     (if jszip_defined pg then Resolved (tryApply lib pptxBlob)
      else if \<not> loadScript_resolves pg then Rejected
      else if jszip_defined_after pg then Resolved (tryApply lib pptxBlob)
      else Resolved pptxBlob)"

subsection \<open>Sample packages and a reference library\<close>

text \<open>
  Concrete inputs on which the theorems below are exercised. The reference library
  treats a blob as either a packed archive or bytes that are no archive; a second one
  fails to pack.
\<close>

datatype sample_blob = Packed zip | Junk string

definition sample_lib :: "sample_blob jszip" where
  "sample_lib =
     \<lparr>loadAsync = (\<lambda>b. case b of Packed z \<Rightarrow> Inr z | Junk bytes \<Rightarrow> Inl CorruptArchive),
      generateAsync = (\<lambda>z. Inr (Packed z))\<rparr>"

definition unpackable_lib :: "sample_blob jszip" where
  "unpackable_lib =
     \<lparr>loadAsync = (\<lambda>b. case b of Packed z \<Rightarrow> Inr z | Junk bytes \<Rightarrow> Inl CorruptArchive),
      generateAsync = (\<lambda>z. Inl SerializationFailed)\<rparr>"

definition page_with_library :: page where
  "page_with_library =
     \<lparr>jszip_defined = True, loadScript_resolves = False, jszip_defined_after = False\<rparr>"

definition slide_path :: "string \<Rightarrow> string" where
  "slide_path n = ''ppt/slides/slide'' @ n @ ''.xml''"

definition slides_1_to_11 :: "string list" where
  "slides_1_to_11 =
     [slide_path ''1'', slide_path ''2'', slide_path ''3'', slide_path ''4'',
      slide_path ''5'', slide_path ''6'', slide_path ''7'', slide_path ''8'',
      slide_path ''9'', slide_path ''10'', slide_path ''11'']"

text \<open>Three slides, enumerated out of order, and a part that is no slide.\<close>

definition deck3 :: zip where
  "deck3 =
     [(slide_path ''1'', Text ''<p:sld>a</p:sld>''),
      (slide_path ''3'', Text ''<p:sld>c</p:sld>''),
      (''[Content_Types].xml'', Text ''<Types/>''),
      (slide_path ''2'', Text ''<p:sld>b</p:sld>'')]"

text \<open>The same deck with a second slide that cannot be read.\<close>

definition deck3_damaged :: zip where
  "deck3_damaged =
     [(slide_path ''1'', Text ''<p:sld>a</p:sld>''),
      (slide_path ''3'', Text ''<p:sld>c</p:sld>''),
      (''[Content_Types].xml'', Text ''<Types/>''),
      (slide_path ''2'', Damaged)]"

text \<open>The same deck with a second slide that has no closing tag.\<close>

definition deck3_unclosed :: zip where
  "deck3_unclosed =
     [(slide_path ''1'', Text ''<p:sld>a</p:sld>''),
      (slide_path ''3'', Text ''<p:sld>c</p:sld>''),
      (''[Content_Types].xml'', Text ''<Types/>''),
      (slide_path ''2'', Text ''<p:sld>b'')]"

text \<open>Five slides.\<close>

definition deck5 :: zip where
  "deck5 =
     [(slide_path ''1'', Text ''<p:sld>a</p:sld>''),
      (slide_path ''2'', Text ''<p:sld>b</p:sld>''),
      (slide_path ''3'', Text ''<p:sld>c</p:sld>''),
      (slide_path ''4'', Text ''<p:sld>d</p:sld>''),
      (slide_path ''5'', Text ''<p:sld>e</p:sld>'')]"

text \<open>Eleven slides, enumerated in the lexicographic order of their paths.\<close>

definition deck11 :: zip where
  "deck11 =
     map (\<lambda>p. (p, Text ''<p:sld></p:sld>''))
       [slide_path ''1'', slide_path ''10'', slide_path ''11'', slide_path ''2'',
        slide_path ''3'', slide_path ''4'', slide_path ''5'', slide_path ''6'',
        slide_path ''7'', slide_path ''8'', slide_path ''9'']"

text \<open>What the engine makes of \<open>deck3\<close>.\<close>

definition deck3_transitioned :: zip where
  "deck3_transitioned =
     [(slide_path ''1'', Text ''<p:sld>a</p:sld>''),
      (slide_path ''3'', Text (''<p:sld>c'' @ morph_xml @ ''</p:sld>'')),
      (''[Content_Types].xml'', Text ''<Types/>''),
      (slide_path ''2'', Text (''<p:sld>b'' @ push_xml @ ''</p:sld>''))]"

text \<open>What the engine makes of \<open>deck5\<close> and of \<open>deck3_unclosed\<close>.\<close>

definition deck5_transitioned :: zip where
  "deck5_transitioned =
     [(slide_path ''1'', Text ''<p:sld>a</p:sld>''),
      (slide_path ''2'', Text (''<p:sld>b'' @ push_xml @ ''</p:sld>'')),
      (slide_path ''3'', Text (''<p:sld>c'' @ morph_xml @ ''</p:sld>'')),
      (slide_path ''4'', Text (''<p:sld>d'' @ push_xml @ ''</p:sld>'')),
      (slide_path ''5'', Text (''<p:sld>e'' @ morph_xml @ ''</p:sld>''))]"

definition deck3_unclosed_transitioned :: zip where
  "deck3_unclosed_transitioned =
     [(slide_path ''1'', Text ''<p:sld>a</p:sld>''),
      (slide_path ''3'', Text (''<p:sld>c'' @ morph_xml @ ''</p:sld>'')),
      (''[Content_Types].xml'', Text ''<Types/>''),
      (slide_path ''2'', Text ''<p:sld>b'')]"

section \<open>Facts about strings\<close>

text \<open>
  What \<open>indexOf\<close> and \<open>replace\<close> compute, in terms of occurrences (\<open>sublist\<close>), and what
  the two regular expressions do on a slide path.
\<close>

lemma indexOf_ge: "- 1 \<le> indexOf s pat"
  by (induction s) (auto simp: Let_def)

lemma indexOf_absent_iff: "indexOf s pat = - 1 \<longleftrightarrow> \<not> sublist pat s"
proof (induction s)
  case Nil
  show ?case by simp
next
  case (Cons c cs)
  have "indexOf cs pat + 1 \<noteq> - 1" using indexOf_ge [of cs pat] by arith
  with Cons show ?case
    by (auto simp: Let_def sublist_Cons_right)
qed

lemma replace_absent: "\<not> sublist pat s \<Longrightarrow> replace s pat rep = s"
  by (induction s) (auto simp: sublist_Cons_right)

lemma replace_present:
  "sublist pat s \<Longrightarrow> \<exists>a b. s = a @ pat @ b \<and> replace s pat rep = a @ rep @ b"
proof (induction s)
  case Nil
  then show ?case by simp
next
  case (Cons c cs)
  show ?case
  proof (cases "prefix pat (c # cs)")
    case True
    then obtain b where b: "c # cs = pat @ b" by (auto simp: prefix_def)
    have "replace (c # cs) pat rep = rep @ drop (length pat) (c # cs)"
      using True by simp
    also have "drop (length pat) (c # cs) = b" unfolding b by simp
    finally show ?thesis using b by (metis append_Nil)
  next
    case False
    with Cons.prems have "sublist pat cs" by (simp add: sublist_Cons_right)
    then obtain a b where "cs = a @ pat @ b" "replace cs pat rep = a @ rep @ b"
      using Cons.IH by blast
    then have "c # cs = (c # a) @ pat @ b \<and> replace (c # cs) pat rep = (c # a) @ rep @ b"
      using False by simp
    then show ?thesis by blast
  qed
qed

lemma replace_keeps_sublist:
  assumes "sublist pat s" "sublist m rep"
  shows "sublist m (replace s pat rep)"
proof -
  obtain a b where "replace s pat rep = a @ rep @ b"
    using replace_present [OF assms(1)] by blast
  then show ?thesis using assms(2)
    by (metis sublist_appendI sublist_order.order_trans)
qed

lemma slide_path_match:
  assumes "is_slide_path p"
  shows "match_slide p = Some (takeWhile is_digit (drop 16 p))"
proof -
  from assms have pre: "prefix ''ppt/slides/slide'' p"
    and ne: "takeWhile is_digit (drop 16 p) \<noteq> []"
    unfolding is_slide_path_def Let_def by blast+
  from pre obtain rest where p: "p = ''ppt/slides/slide'' @ rest" by (rule prefixE)
  have d: "drop 16 p = rest" unfolding p by simp
  have "match_slide (''ppt/slides/slide'' @ rest) = Some (takeWhile is_digit rest)"
    using ne unfolding d by (simp add: is_digit_def)
  then show ?thesis unfolding d unfolding p .
qed

section \<open>Facts about the catalog\<close>

text \<open>
  The fragments the sequence selects, and what the loop body does to a text.
\<close>

lemma sequence_length: "length TRANSITION_SEQUENCE = 2"
  by (simp add: TRANSITION_SEQUENCE_def)

lemma sequence_entry:
  "TRANSITION_SEQUENCE ! (i mod length TRANSITION_SEQUENCE) = (if even i then ''morph'' else ''push'')"
proof (cases "even i")
  case True
  then have "i mod 2 = 0" by presburger
  then have "TRANSITION_SEQUENCE ! (i mod 2) = ''morph''"
    by (simp add: TRANSITION_SEQUENCE_def)
  with True show ?thesis by (simp only: sequence_length if_True)
next
  case False
  then have "i mod 2 = 1" by presburger
  then have "TRANSITION_SEQUENCE ! (i mod 2) = ''push''"
    by (simp add: TRANSITION_SEQUENCE_def)
  with False show ?thesis by (simp only: sequence_length if_False)
qed

lemma catalog_morph: "TRANSITIONS ''morph'' = Some morph_xml"
  by (simp add: TRANSITIONS_def)

lemma catalog_push: "TRANSITIONS ''push'' = Some push_xml"
  by (simp add: TRANSITIONS_def)

lemma sequence_lookup:
  "TRANSITIONS (TRANSITION_SEQUENCE ! (i mod length TRANSITION_SEQUENCE)) =
     Some (if even i then morph_xml else push_xml)"
  by (simp add: sequence_entry catalog_morph catalog_push)

lemma replacement_literal:
  "TRANSITIONS t = Some x \<Longrightarrow> CHR ''$'' \<notin> set (x @ ''</p:sld>'')"
  by (auto simp: TRANSITIONS_def morph_xml_def push_xml_def cover_xml_def fade_xml_def
      wipe_xml_def split: if_splits)

lemma marker_in_morph: "sublist ''<p:transition'' (concat_closing (Some morph_xml))"
proof -
  have "indexOf (concat_closing (Some morph_xml)) ''<p:transition'' \<noteq> - 1"
    by (simp add: concat_closing_def morph_xml_def)
  then show ?thesis by (simp only: indexOf_absent_iff not_not)
qed

lemma marker_in_push: "sublist ''<p:transition'' (concat_closing (Some push_xml))"
proof -
  have "indexOf (concat_closing (Some push_xml)) ''<p:transition'' \<noteq> - 1"
    by (simp add: concat_closing_def push_xml_def)
  then show ?thesis by (simp only: indexOf_absent_iff not_not)
qed

lemma marker_in_replacement:
  "sublist ''<p:transition''
     (concat_closing (TRANSITIONS (TRANSITION_SEQUENCE ! (i mod length TRANSITION_SEQUENCE))))"
  by (simp add: sequence_lookup marker_in_morph marker_in_push)

lemma inject_text_parity:
  "inject_text i xml =
     (if indexOf xml ''<p:transition'' = - 1
      then Some (replace xml ''</p:sld>'' ((if even i then morph_xml else push_xml) @ ''</p:sld>''))
      else None)"
  by (simp add: inject_text_def Let_def sequence_lookup concat_closing_def)

lemma inject_text_Some:
  "inject_text i xml = Some y \<Longrightarrow> inject_text i y = None \<or> y = xml"
proof -
  assume a: "inject_text i xml = Some y"
  let ?R = "concat_closing (TRANSITIONS (TRANSITION_SEQUENCE ! (i mod length TRANSITION_SEQUENCE)))"
  from a have y: "y = replace xml ''</p:sld>'' ?R"
    by (simp add: inject_text_def Let_def split: if_splits)
  show ?thesis
  proof (cases "sublist ''</p:sld>'' xml")
    case True
    then have "sublist ''<p:transition'' y"
      unfolding y using marker_in_replacement by (rule replace_keeps_sublist)
    then have "indexOf y ''<p:transition'' \<noteq> - 1" by (simp only: indexOf_absent_iff not_not)
    then show ?thesis by (simp add: inject_text_def Let_def)
  next
    case False
    then show ?thesis by (simp add: y replace_absent)
  qed
qed

lemma unclosed_text_kept:
  assumes "indexOf xml ''</p:sld>'' = - 1"
  shows "(case inject_text i xml of None \<Rightarrow> xml | Some y \<Rightarrow> y) = xml"
proof -
  have ns: "\<not> sublist ''</p:sld>'' xml"
    using assms by (simp add: indexOf_absent_iff)
  show ?thesis
    by (cases "indexOf xml ''<p:transition'' = - 1")
       (simp_all add: inject_text_def Let_def replace_absent [OF ns])
qed

section \<open>Facts about the loop\<close>

text \<open>
  Reading and writing entries, and the effect of the loop on the package: which
  entries it leaves alone, what it makes of the others, when it completes and when it
  does not.
\<close>

lemma map_of_write_string:
  "map_of (write_string z p s) q = (if q = p then Some (Text s) else map_of z q)"
  by (induction z) auto

lemma write_string_same: "map_of z p = Some (Text s) \<Longrightarrow> write_string z p s = z"
  by (induction z) (auto split: if_splits)

lemma write_string_paths: "map_of z p = Some c \<Longrightarrow> map fst (write_string z p s) = map fst z"
  by (induction z) (auto split: if_splits)

lemma read_string_Inr: "read_string z p = Inr s \<longleftrightarrow> map_of z p = Some (Text s)"
  by (auto simp: read_string_def split: option.splits zip_object.splits)

lemma injectLoop_paths:
  "injectLoop i ps z = Inr z' \<Longrightarrow> map fst z' = map fst z"
proof (induction ps arbitrary: i z)
  case Nil
  then show ?case by simp
next
  case (Cons p ps)
  from Cons.prems obtain xml where r: "read_string z p = Inr xml"
    by (auto split: sum.splits)
  then have m: "map_of z p = Some (Text xml)" by (simp add: read_string_Inr)
  show ?case
  proof (cases "inject_text i xml")
    case None
    with Cons.prems r have "injectLoop (Suc i) ps z = Inr z'" by simp
    then show ?thesis by (rule Cons.IH)
  next
    case (Some x)
    with Cons.prems r have "injectLoop (Suc i) ps (write_string z p x) = Inr z'" by simp
    then have "map fst z' = map fst (write_string z p x)" by (rule Cons.IH)
    then show ?thesis using write_string_paths [OF m] by simp
  qed
qed

lemma injectLoop_frame:
  "injectLoop i ps z = Inr z' \<Longrightarrow> q \<notin> set ps \<Longrightarrow> map_of z' q = map_of z q"
proof (induction ps arbitrary: i z)
  case Nil
  then show ?case by simp
next
  case (Cons p ps)
  from Cons.prems obtain xml where r: "read_string z p = Inr xml"
    by (auto split: sum.splits)
  from Cons.prems have q: "q \<noteq> p" "q \<notin> set ps" by auto
  show ?case
  proof (cases "inject_text i xml")
    case None
    with Cons.prems r have "injectLoop (Suc i) ps z = Inr z'" by simp
    then show ?thesis using q(2) by (rule Cons.IH)
  next
    case (Some x)
    with Cons.prems r have "injectLoop (Suc i) ps (write_string z p x) = Inr z'" by simp
    then have "map_of z' q = map_of (write_string z p x) q" using q(2) by (rule Cons.IH)
    then show ?thesis using q(1) by (simp add: map_of_write_string)
  qed
qed

lemma injectLoop_nth:
  "injectLoop i ps z = Inr z' \<Longrightarrow> distinct ps \<Longrightarrow> k < length ps \<Longrightarrow>
   \<exists>xml. map_of z (ps ! k) = Some (Text xml) \<and>
         map_of z' (ps ! k) =
           Some (Text (case inject_text (i + k) xml of None \<Rightarrow> xml | Some x \<Rightarrow> x))"
proof (induction ps arbitrary: i z k)
  case Nil
  then show ?case by simp
next
  case (Cons p ps)
  from Cons.prems obtain xml where r: "read_string z p = Inr xml"
    by (auto split: sum.splits)
  then have m: "map_of z p = Some (Text xml)" by (simp add: read_string_Inr)
  define z1 where "z1 = (case inject_text i xml of None \<Rightarrow> z | Some x \<Rightarrow> write_string z p x)"
  have loop: "injectLoop (Suc i) ps z1 = Inr z'"
    using Cons.prems(1) r by (simp add: z1_def split: option.splits)
  have z1p: "map_of z1 p = Some (Text (case inject_text i xml of None \<Rightarrow> xml | Some x \<Rightarrow> x))"
    using m by (simp add: z1_def map_of_write_string split: option.splits)
  have z1q: "map_of z1 q = map_of z q" if "q \<noteq> p" for q
    using that by (simp add: z1_def map_of_write_string split: option.splits)
  from Cons.prems have d: "distinct ps" "p \<notin> set ps" by auto
  show ?case
  proof (cases k)
    case 0
    have "map_of z' p = map_of z1 p" using loop d(2) by (rule injectLoop_frame)
    with 0 m z1p show ?thesis by simp
  next
    case (Suc j)
    with Cons.prems have j: "j < length ps" by simp
    from Cons.IH [OF loop d(1) j] obtain y where
      y: "map_of z1 (ps ! j) = Some (Text y)"
         "map_of z' (ps ! j) =
            Some (Text (case inject_text (Suc i + j) y of None \<Rightarrow> y | Some x \<Rightarrow> x))"
      by blast
    have "ps ! j \<noteq> p" using d(2) j by (metis nth_mem)
    with y z1q Suc show ?thesis by simp
  qed
qed

lemma injectLoop_succeeds:
  "(\<And>p. p \<in> set ps \<Longrightarrow> \<exists>xml. map_of z p = Some (Text xml)) \<Longrightarrow>
   \<exists>z'. injectLoop i ps z = Inr z'"
proof (induction ps arbitrary: i z)
  case Nil
  then show ?case by simp
next
  case (Cons p ps)
  from Cons.prems [of p] obtain xml where m: "map_of z p = Some (Text xml)" by auto
  then have r: "read_string z p = Inr xml" by (simp add: read_string_Inr)
  show ?case
  proof (cases "inject_text i xml")
    case None
    have "\<exists>z'. injectLoop (Suc i) ps z = Inr z'"
      by (rule Cons.IH) (simp add: Cons.prems)
    with None r show ?thesis by simp
  next
    case (Some x)
    have "\<exists>z'. injectLoop (Suc i) ps (write_string z p x) = Inr z'"
    proof (rule Cons.IH)
      fix q assume "q \<in> set ps"
      then obtain y where "map_of z q = Some (Text y)" using Cons.prems [of q] by auto
      then show "\<exists>xml. map_of (write_string z p x) q = Some (Text xml)"
        by (simp add: map_of_write_string)
    qed
    with Some r show ?thesis by simp
  qed
qed

lemma injectLoop_fails:
  "p \<in> set ps \<Longrightarrow> read_string z p = Inl e \<Longrightarrow> \<exists>e'. injectLoop i ps z = Inl e'"
proof (induction ps arbitrary: i z)
  case Nil
  then show ?case by simp
next
  case (Cons q ps)
  show ?case
  proof (cases "read_string z q")
    case (Inl e')
    then show ?thesis by simp
  next
    case (Inr xml)
    with Cons.prems have pq: "p \<noteq> q" "p \<in> set ps" by auto
    have keep: "read_string (write_string z q x) p = Inl e" for x
      using Cons.prems(2) pq(1) by (simp add: read_string_def map_of_write_string)
    show ?thesis
    proof (cases "inject_text i xml")
      case None
      with Inr Cons.IH [OF pq(2) Cons.prems(2)] show ?thesis by simp
    next
      case (Some x)
      with Inr Cons.IH [OF pq(2) keep] show ?thesis by simp
    qed
  qed
qed

lemma injectLoop_settled:
  "(\<And>k. k < length ps \<Longrightarrow>
      \<exists>t. map_of z (ps ! k) = Some (Text t) \<and>
          (inject_text (i + k) t = None \<or> inject_text (i + k) t = Some t)) \<Longrightarrow>
   injectLoop i ps z = Inr z"
proof (induction ps arbitrary: i)
  case Nil
  show ?case by simp
next
  case (Cons p ps)
  from Cons.prems [of 0] obtain t where
    t: "map_of z p = Some (Text t)" "inject_text i t = None \<or> inject_text i t = Some t"
    by auto
  have rest: "injectLoop (Suc i) ps z = Inr z"
  proof (rule Cons.IH)
    fix k assume "k < length ps"
    then have "Suc k < length (p # ps)" by simp
    from Cons.prems [OF this]
    show "\<exists>t. map_of z (ps ! k) = Some (Text t) \<and>
          (inject_text (Suc i + k) t = None \<or> inject_text (Suc i + k) t = Some t)"
      by simp
  qed
  from t(1) have r: "read_string z p = Inr t" by (simp add: read_string_Inr)
  from t(2) show ?case
  proof
    assume "inject_text i t = None"
    with r rest show ?thesis by simp
  next
    assume "inject_text i t = Some t"
    with r rest write_string_same [OF t(1)] show ?thesis by simp
  qed
qed

section \<open>Facts about sorting\<close>

text \<open>
  The sorted list is a rearrangement of the filtered paths, in ascending order of
  ordinal.
\<close>

lemma those_map_Some: "those (map Some xs) = Some xs"
  by (induction xs) auto

lemma those_SomeD: "those xs = Some ys \<Longrightarrow> xs = map Some ys"
  by (induction xs arbitrary: ys) (auto split: option.splits)

lemma slide_path_number:
  "is_slide_path p \<Longrightarrow> slide_number p = Some (parseInt (takeWhile is_digit (drop 16 p)))"
  by (simp add: slide_number_def slide_path_match)

lemma sortSlides_mset: "sortSlides ps = Inr qs \<Longrightarrow> mset qs = mset ps"
proof (cases "length ps < 2")
  case True
  assume "sortSlides ps = Inr qs"
  with True show ?thesis by (simp add: sortSlides_def)
next
  case False
  assume a: "sortSlides ps = Inr qs"
  with False obtain nps where
    t: "those (map (\<lambda>p. map_option (\<lambda>n. (n, p)) (slide_number p)) ps) = Some nps"
    and qs: "qs = map snd (sort_key fst nps)"
    by (auto simp: sortSlides_def split: option.splits)
  from those_SomeD [OF t]
  have "map (\<lambda>p. map_option (\<lambda>n. (n, p)) (slide_number p)) ps = map Some nps" .
  then have "map snd nps = ps"
  proof (induction ps arbitrary: nps)
    case Nil
    then show ?case by simp
  next
    case (Cons p ps)
    then show ?case by (cases nps) auto
  qed
  then have "mset ps = mset (map snd nps)" by simp
  also have "\<dots> = image_mset snd (mset (sort_key fst nps))" by simp
  also have "\<dots> = mset (map snd (sort_key fst nps))" by simp
  finally show ?thesis by (simp only: qs)
qed

lemma sortSlides_sorted:
  assumes "sortSlides ps = Inr qs"
    and "\<And>p. p \<in> set ps \<Longrightarrow> is_slide_path p"
  shows "sorted_wrt (\<lambda>a b. \<exists>m n. slide_number a = Some m \<and> slide_number b = Some n \<and> m \<le> n) qs"
proof (cases "length ps < 2")
  case True
  with assms(1) have "qs = ps" by (simp add: sortSlides_def)
  with True have "length qs < 2" by simp
  then show ?thesis
    by (cases qs) (auto simp: Suc_less_eq2)
next
  case False
  with assms(1) obtain nps where
    t: "those (map (\<lambda>p. map_option (\<lambda>n. (n, p)) (slide_number p)) ps) = Some nps"
    and qs: "qs = map snd (sort_key fst nps)"
    by (auto simp: sortSlides_def split: option.splits)
  from those_SomeD [OF t]
  have eq: "map (\<lambda>p. map_option (\<lambda>n. (n, p)) (slide_number p)) ps = map Some nps" .
  have pairs: "slide_number (snd x) = Some (fst x)" if "x \<in> set nps" for x
  proof -
    from that have "Some x \<in> set (map Some nps)" by simp
    then have "Some x \<in> set (map (\<lambda>p. map_option (\<lambda>n. (n, p)) (slide_number p)) ps)"
      by (simp only: eq)
    then obtain p where "Some x = map_option (\<lambda>n. (n, p)) (slide_number p)" by auto
    then show ?thesis by (cases "slide_number p") auto
  qed
  have "sorted (map fst (sort_key fst nps))" by (rule sorted_sort_key)
  then have "sorted_wrt (\<lambda>x y. fst x \<le> fst y) (sort_key fst nps)"
    by (simp add: sorted_map)
  then have "sorted_wrt (\<lambda>x y. \<exists>m n. slide_number (snd x) = Some m \<and>
                 slide_number (snd y) = Some n \<and> m \<le> n) (sort_key fst nps)"
    by (rule sorted_wrt_mono_rel [rotated]) (auto simp: pairs)
  then show ?thesis by (simp add: qs sorted_wrt_map)
qed

lemma sortSlides_total:
  assumes "\<And>p. p \<in> set ps \<Longrightarrow> is_slide_path p"
  shows "\<exists>qs. sortSlides ps = Inr qs"
proof -
  have "map (\<lambda>p. map_option (\<lambda>n. (n, p)) (slide_number p)) ps =
        map Some (map (\<lambda>p. (parseInt (takeWhile is_digit (drop 16 p)), p)) ps)"
    using assms by (simp add: slide_path_number)
  then have "those (map (\<lambda>p. map_option (\<lambda>n. (n, p)) (slide_number p)) ps) =
        Some (map (\<lambda>p. (parseInt (takeWhile is_digit (drop 16 p)), p)) ps)"
    by (simp only: those_map_Some)
  then show ?thesis
    by (simp add: sortSlides_def)
qed

lemma findSlideFiles_slide_path: "p \<in> set (findSlideFiles z) \<Longrightarrow> is_slide_path p"
  by (simp add: findSlideFiles_def)

lemma sorted_slide_paths:
  assumes "sortSlides (findSlideFiles z) = Inr slideFiles" "p \<in> set slideFiles"
  shows "is_slide_path p"
proof -
  have "set slideFiles = set (findSlideFiles z)"
    using sortSlides_mset [OF assms(1)] by (rule mset_eq_setD)
  with assms(2) show ?thesis by (simp add: findSlideFiles_def)
qed

lemma wf_zip_distinct:
  assumes "wf_zip z" "sortSlides (findSlideFiles z) = Inr slideFiles"
  shows "distinct slideFiles"
proof -
  from assms(1) have "distinct (findSlideFiles z)"
    by (simp add: wf_zip_def findSlideFiles_def)
  moreover have "mset slideFiles = mset (findSlideFiles z)"
    using assms(2) by (rule sortSlides_mset)
  ultimately show ?thesis by (metis mset_eq_imp_distinct_iff)
qed

lemma sorted_strict_when_distinct:
  assumes "sorted_wrt (\<lambda>a b. \<exists>m n. slide_number a = Some m \<and> slide_number b = Some n \<and> m \<le> n) qs"
    and "distinct (map slide_number qs)"
  shows "sorted_wrt (\<lambda>a b. \<exists>m n. slide_number a = Some m \<and> slide_number b = Some n \<and> m < n) qs"
proof -
  have "\<exists>m n. slide_number (qs ! i) = Some m \<and> slide_number (qs ! j) = Some n \<and> m < n"
    if "i < j" "j < length qs" for i j
  proof -
    from assms(1) have "\<forall>i j. i < j \<longrightarrow> j < length qs \<longrightarrow>
        (\<exists>m n. slide_number (qs ! i) = Some m \<and> slide_number (qs ! j) = Some n \<and> m \<le> n)"
      by (simp only: sorted_wrt_iff_nth_less)
    with that obtain m n where
      mn: "slide_number (qs ! i) = Some m" "slide_number (qs ! j) = Some n" "m \<le> n"
      by blast
    from that have ij: "i < length (map slide_number qs)" "j < length (map slide_number qs)"
      "i \<noteq> j" by simp_all
    from nth_eq_iff_index_eq [OF assms(2) ij(1,2)] ij(3)
    have "map slide_number qs ! i \<noteq> map slide_number qs ! j" by blast
    with that have "slide_number (qs ! i) \<noteq> slide_number (qs ! j)" by simp
    with mn have "m \<noteq> n" by auto
    with mn show ?thesis by auto
  qed
  then show ?thesis by (simp add: sorted_wrt_iff_nth_less)
qed

lemma strictly_sorted_unique:
  assumes q: "sorted_wrt (\<lambda>a b. \<exists>m n. slide_number a = Some m \<and> slide_number b = Some n \<and> m < n) qs"
    and l: "sorted_wrt (\<lambda>a b. \<exists>m n. slide_number a = Some m \<and> slide_number b = Some n \<and> m < n) ls"
    and s: "set qs = set ls"
  shows "qs = ls"
proof -
  define kk where "kk p = (case slide_number p of None \<Rightarrow> 0 | Some n \<Rightarrow> n)" for p
  have lt: "sorted_wrt (\<lambda>a b. kk a < kk b) xs"
    if "sorted_wrt (\<lambda>a b. \<exists>m n. slide_number a = Some m \<and> slide_number b = Some n \<and> m < n) xs"
    for xs
    using that by (rule sorted_wrt_mono_rel [rotated]) (auto simp: kk_def)
  have sq: "sorted_wrt (<) (map kk qs)" and sl: "sorted_wrt (<) (map kk ls)"
    using lt [OF q] lt [OF l] by (simp_all add: sorted_wrt_map)
  have "set (map kk qs) = set (map kk ls)" using s by simp
  with sq sl have eq: "map kk qs = map kk ls"
    by (simp add: strict_sorted_iff sorted_distinct_set_unique)
  from sl have "distinct (map kk ls)" by (simp add: strict_sorted_iff)
  then have "inj_on kk (set ls)" by (simp add: distinct_map)
  then have "inj_on kk (set qs \<union> set ls)" by (simp add: s)
  with eq show ?thesis by (simp add: inj_on_map_eq_map)
qed

section \<open>Facts about the function as a whole\<close>

text \<open>
  The injection pass inside the \<^verbatim>\<open>try\<close> block, and the steps before it.
\<close>

lemma injectTransitions_Inr:
  "injectTransitions z = Inr z' \<Longrightarrow>
   \<exists>slideFiles. sortSlides (findSlideFiles z) = Inr slideFiles \<and>
      injectLoop 1 (drop 1 slideFiles) z = Inr z'"
  by (auto simp: injectTransitions_def split: sum.splits)

lemma tryApply_inject_fails:
  "loadAsync lib b = Inr z \<Longrightarrow> injectTransitions z = Inl e \<Longrightarrow> tryApply lib b = b"
  by (simp add: tryApply_def)

lemma applyTransitions_ready:
  "library_ready pg \<Longrightarrow> applyTransitions pg lib b = Resolved (tryApply lib b)"
  by (auto simp: library_ready_def applyTransitions_def)

lemma applyTransitions_handled:
  "jszip_defined pg \<or> loadScript_resolves pg \<Longrightarrow> tryApply lib b = b \<Longrightarrow>
   applyTransitions pg lib b = Resolved b"
  by (auto simp: applyTransitions_def)

lemma applyTransitions_rejects:
  "\<not> jszip_defined pg \<Longrightarrow> \<not> loadScript_resolves pg \<Longrightarrow>
   applyTransitions pg lib b = Rejected"
  by (simp add: applyTransitions_def)

section \<open>The sample packages, evaluated\<close>

text \<open>
  The engine run on the sample packages, by rewriting with the definitions.
\<close>

lemmas eval_paths = findSlideFiles_def is_slide_path_def slide_path_def is_digit_def

lemmas eval_sort = sortSlides_def slide_number_def slide_path_def is_digit_def parseInt_def

lemmas eval_loop = read_string_def inject_text_parity slide_path_def

lemma page_with_library_ready: "library_ready page_with_library"
  by (simp add: library_ready_def page_with_library_def)

lemma page_with_library_usable:
  "jszip_defined page_with_library \<or> loadScript_resolves page_with_library"
  by (simp add: page_with_library_def)

lemma deck3_slides:
  "sortSlides (findSlideFiles deck3) = Inr [slide_path ''1'', slide_path ''2'', slide_path ''3'']"
  by (simp add: eval_paths eval_sort deck3_def)

lemma deck3_wf: "wf_zip deck3"
  by (simp add: wf_zip_def exact_ordinal_def eval_paths eval_sort deck3_def)

lemma deck3_run: "injectTransitions deck3 = Inr deck3_transitioned"
  by (simp add: injectTransitions_def deck3_slides)
     (simp add: eval_loop deck3_def deck3_transitioned_def)

lemma deck3_damaged_slides:
  "sortSlides (findSlideFiles deck3_damaged) =
     Inr [slide_path ''1'', slide_path ''2'', slide_path ''3'']"
  by (simp add: eval_paths eval_sort deck3_damaged_def)

lemma deck3_damaged_wf: "wf_zip deck3_damaged"
  by (simp add: wf_zip_def exact_ordinal_def eval_paths eval_sort deck3_damaged_def)

lemma deck3_damaged_run:
  "injectTransitions deck3_damaged = Inl (ReadRejected (slide_path ''2''))"
  by (simp add: injectTransitions_def deck3_damaged_slides)
     (simp add: eval_loop deck3_damaged_def)

lemma deck3_unclosed_slides:
  "sortSlides (findSlideFiles deck3_unclosed) =
     Inr [slide_path ''1'', slide_path ''2'', slide_path ''3'']"
  by (simp add: eval_paths eval_sort deck3_unclosed_def)

lemma deck3_unclosed_wf: "wf_zip deck3_unclosed"
  by (simp add: wf_zip_def exact_ordinal_def eval_paths eval_sort deck3_unclosed_def)

lemma deck3_unclosed_run: "injectTransitions deck3_unclosed = Inr deck3_unclosed_transitioned"
  by (simp add: injectTransitions_def deck3_unclosed_slides)
     (simp add: eval_loop deck3_unclosed_def deck3_unclosed_transitioned_def)

lemma deck5_slides:
  "sortSlides (findSlideFiles deck5) =
     Inr [slide_path ''1'', slide_path ''2'', slide_path ''3'', slide_path ''4'', slide_path ''5'']"
  by (simp add: eval_paths eval_sort deck5_def)

lemma deck5_wf: "wf_zip deck5"
  by (simp add: wf_zip_def exact_ordinal_def eval_paths eval_sort deck5_def)

lemma deck5_run: "injectTransitions deck5 = Inr deck5_transitioned"
  by (simp add: injectTransitions_def deck5_slides)
     (simp add: eval_loop deck5_def deck5_transitioned_def)

lemma deck11_slides: "sortSlides (findSlideFiles deck11) = Inr slides_1_to_11"
  by (simp add: eval_sort eval_paths deck11_def slides_1_to_11_def)

lemma deck11_wf: "wf_zip deck11"
  by (simp add: wf_zip_def exact_ordinal_def eval_sort eval_paths deck11_def)

lemma deck11_files:
  "mset (findSlideFiles deck11) = mset slides_1_to_11"
  by (rule sym) (rule sortSlides_mset [OF deck11_slides])

lemma slides_1_to_11_numbers:
  "map slide_number slides_1_to_11 =
     [Some 1, Some 2, Some 3, Some 4, Some 5, Some 6, Some 7, Some 8, Some 9, Some 10, Some 11]"
  by (simp add: slides_1_to_11_def slide_number_def slide_path_def is_digit_def parseInt_def)

lemma slides_1_to_11_sorted:
  "sorted_wrt (\<lambda>a b. \<exists>m n. slide_number a = Some m \<and> slide_number b = Some n \<and> m < n)
     slides_1_to_11"
proof -
  have "sorted_wrt (\<lambda>a b. \<exists>m n. a = Some m \<and> b = Some n \<and> m < n)
     (map slide_number slides_1_to_11)"
    unfolding slides_1_to_11_numbers by simp
  then show ?thesis by (simp add: sorted_wrt_map)
qed

section \<open>Properties of the engine\<close>

subsection \<open>Lookups\<close>

text \<open>
  Claim C10. Neither lookup of the engine can yield \<^verbatim>\<open>null\<close> or \<^verbatim>\<open>undefined\<close>: for
  every path the filter accepts, the match the comparator makes succeeds and captures
  a non-empty run of digits, so sorting the filtered paths never fails; and for every
  position \<open>i\<close> the catalog holds a fragment for the identifier the sequence gives,
  every identifier of the sequence being a key of the catalog.
\<close>

theorem lookups_never_undefined:
  "(is_slide_path p \<longrightarrow>
      (\<exists>ds. match_slide p = Some ds \<and> ds \<noteq> [] \<and> list_all is_digit ds)) \<and>
   (\<exists>qs. sortSlides (findSlideFiles z) = Inr qs) \<and>
   (\<exists>transXml. TRANSITIONS (TRANSITION_SEQUENCE ! (i mod length TRANSITION_SEQUENCE)) =
      Some transXml) \<and>
   set TRANSITION_SEQUENCE \<subseteq> dom TRANSITIONS"
proof (intro conjI impI)
  assume p: "is_slide_path p"
  then have "takeWhile is_digit (drop 16 p) \<noteq> []"
    unfolding is_slide_path_def Let_def by blast
  moreover have "list_all is_digit (takeWhile is_digit (drop 16 p))"
    by (simp add: list_all_iff) (metis set_takeWhileD)
  ultimately show "\<exists>ds. match_slide p = Some ds \<and> ds \<noteq> [] \<and> list_all is_digit ds"
    using slide_path_match [OF p] by blast
next
  show "\<exists>qs. sortSlides (findSlideFiles z) = Inr qs"
    by (rule sortSlides_total) (rule findSlideFiles_slide_path)
next
  show "\<exists>transXml. TRANSITIONS (TRANSITION_SEQUENCE ! (i mod length TRANSITION_SEQUENCE)) =
      Some transXml"
    by (simp add: sequence_lookup)
next
  show "set TRANSITION_SEQUENCE \<subseteq> dom TRANSITIONS"
    by (simp add: TRANSITION_SEQUENCE_def dom_def catalog_morph catalog_push)
qed

theorem lookups_never_undefined_witness:
  "is_slide_path (slide_path ''12'') \<and> match_slide (slide_path ''12'') = Some ''12'' \<and>
   sortSlides (findSlideFiles deck11) = Inr slides_1_to_11 \<and>
   TRANSITIONS (TRANSITION_SEQUENCE ! (7 mod length TRANSITION_SEQUENCE)) = Some push_xml"
proof -
  have p: "is_slide_path (slide_path ''12'')"
    by (simp add: is_slide_path_def slide_path_def is_digit_def)
  from lookups_never_undefined [of "slide_path ''12''" deck11 7] p
  obtain ds qs transXml where
    "match_slide (slide_path ''12'') = Some ds"
    "sortSlides (findSlideFiles deck11) = Inr qs"
    "TRANSITIONS (TRANSITION_SEQUENCE ! (7 mod length TRANSITION_SEQUENCE)) = Some transXml"
    by blast
  moreover have "match_slide (slide_path ''12'') = Some ''12''"
    by (simp add: slide_path_def is_digit_def)
  moreover have "sortSlides (findSlideFiles deck11) = Inr slides_1_to_11"
    by (rule deck11_slides)
  moreover have "TRANSITIONS (TRANSITION_SEQUENCE ! (7 mod length TRANSITION_SEQUENCE)) =
      Some push_xml"
    by (simp add: sequence_lookup)
  ultimately show ?thesis using p by simp
qed

subsection \<open>Entries that are no slides\<close>

text \<open>
  Claim C8. When the injection pass completes, the package has the same entries in
  the same places, and every entry whose path does not follow the slide naming
  convention has the content it had: only slide entries can change. (When the pass
  does not complete, the engine returns the blob it was given.)
\<close>

theorem entries_kept_and_others_untouched:
  assumes "injectTransitions z = Inr z'"
  shows "map fst z' = map fst z \<and> (\<forall>p. \<not> is_slide_path p \<longrightarrow> map_of z' p = map_of z p)"
proof -
  from injectTransitions_Inr [OF assms] obtain slideFiles where
    s: "sortSlides (findSlideFiles z) = Inr slideFiles"
    and l: "injectLoop 1 (drop 1 slideFiles) z = Inr z'"
    by blast
  have "map_of z' p = map_of z p" if "\<not> is_slide_path p" for p
  proof -
    have "p \<notin> set slideFiles" using that sorted_slide_paths [OF s] by blast
    then have "p \<notin> set (drop 1 slideFiles)" by (metis in_set_dropD)
    with l show ?thesis by (rule injectLoop_frame)
  qed
  moreover have "map fst z' = map fst z" using l by (rule injectLoop_paths)
  ultimately show ?thesis by blast
qed

theorem entries_kept_and_others_untouched_witness:
  "injectTransitions deck3 = Inr deck3_transitioned \<and>
   map fst deck3_transitioned = map fst deck3 \<and>
   \<not> is_slide_path ''[Content_Types].xml'' \<and>
   map_of deck3_transitioned ''[Content_Types].xml'' = Some (Text ''<Types/>'') \<and>
   map_of deck3 ''[Content_Types].xml'' = Some (Text ''<Types/>'')"
proof -
  have n: "\<not> is_slide_path ''[Content_Types].xml''"
    by (simp add: is_slide_path_def)
  have m: "map_of deck3 ''[Content_Types].xml'' = Some (Text ''<Types/>'')"
    by (simp add: deck3_def slide_path_def)
  from entries_kept_and_others_untouched [OF deck3_run] n
  have "map fst deck3_transitioned = map fst deck3"
    and "map_of deck3_transitioned ''[Content_Types].xml'' = map_of deck3 ''[Content_Types].xml''"
    by blast+
  with n m deck3_run show ?thesis by simp
qed

subsection \<open>Failures\<close>

text \<open>
  Claim C1 says that an exception raised while one slide is processed is caught there,
  that the slide is skipped and the loop goes on, and that such an error never makes the
  operation fall back to its input. The loop has no handler of its own: the exception
  leaves it and reaches the one handler of the function, which returns the blob that
  was given. On \<open>deck3_damaged\<close> the read of the second slide is rejected, the result is
  the input, and the third slide, which is readable, has not been given a transition.
\<close>

theorem slide_error_aborts_counterexample:
  "injectTransitions deck3_damaged = Inl (ReadRejected (slide_path ''2'')) \<and>
   applyTransitions page_with_library sample_lib (Packed deck3_damaged) =
     Resolved (Packed deck3_damaged) \<and>
   read_string deck3_damaged (slide_path ''3'') = Inr ''<p:sld>c</p:sld>''"
proof -
  have "tryApply sample_lib (Packed deck3_damaged) = Packed deck3_damaged"
    by (simp add: tryApply_def sample_lib_def deck3_damaged_run)
  moreover have "read_string deck3_damaged (slide_path ''3'') = Inr ''<p:sld>c</p:sld>''"
    by (simp add: read_string_def deck3_damaged_def slide_path_def)
  ultimately show ?thesis
    by (simp add: deck3_damaged_run applyTransitions_ready [OF page_with_library_ready])
qed

text \<open>
  Claim C1, amended: if the read of any slide after the first is rejected, the
  exception is not caught for that slide; the whole operation is abandoned and the
  promise resolves to the blob that was given, unchanged. This is for a package with
  distinct paths and slide ordinals in the exact range (\<open>wf_zip\<close>), where the sorted
  list of the model is the one of the code, and with the library defined or its
  script loadable (otherwise the promise is rejected before the archive is opened,
  see \<open>applyTransitions_rejects\<close>).
\<close>

theorem unreadable_slide_returns_input:
  assumes "jszip_defined pg \<or> loadScript_resolves pg"
    and "loadAsync lib pptxBlob = Inr z"
    and "wf_zip z"
    and "sortSlides (findSlideFiles z) = Inr slideFiles"
    and "p \<in> set (drop 1 slideFiles)"
    and "read_string z p = Inl e"
  shows "applyTransitions pg lib pptxBlob = Resolved pptxBlob"
proof -
  from injectLoop_fails [OF assms(5,6)] obtain e' where
    "injectLoop 1 (drop 1 slideFiles) z = Inl e'" by blast
  then have "injectTransitions z = Inl e'"
    by (simp add: injectTransitions_def assms(4))
  with assms(2) have "tryApply lib pptxBlob = pptxBlob" by (rule tryApply_inject_fails)
  with assms(1) show ?thesis by (rule applyTransitions_handled)
qed

theorem unreadable_slide_returns_input_witness:
  "(jszip_defined page_with_library \<or> loadScript_resolves page_with_library) \<and>
   loadAsync sample_lib (Packed deck3_damaged) = Inr deck3_damaged \<and>
   wf_zip deck3_damaged \<and>
   sortSlides (findSlideFiles deck3_damaged) =
     Inr [slide_path ''1'', slide_path ''2'', slide_path ''3''] \<and>
   slide_path ''2'' \<in> set (drop 1 [slide_path ''1'', slide_path ''2'', slide_path ''3'']) \<and>
   read_string deck3_damaged (slide_path ''2'') = Inl (ReadRejected (slide_path ''2'')) \<and>
   applyTransitions page_with_library sample_lib (Packed deck3_damaged) =
     Resolved (Packed deck3_damaged)"
proof -
  have l: "loadAsync sample_lib (Packed deck3_damaged) = Inr deck3_damaged"
    by (simp add: sample_lib_def)
  have m: "slide_path ''2'' \<in> set (drop 1 [slide_path ''1'', slide_path ''2'', slide_path ''3''])"
    by simp
  have r: "read_string deck3_damaged (slide_path ''2'') = Inl (ReadRejected (slide_path ''2''))"
    by (simp add: read_string_def deck3_damaged_def slide_path_def)
  from unreadable_slide_returns_input
      [OF page_with_library_usable l deck3_damaged_wf deck3_damaged_slides m r]
    page_with_library_usable l deck3_damaged_wf deck3_damaged_slides m r
  show ?thesis by blast
qed

text \<open>
  Claim C4. A blob that cannot be opened as an archive, or whose package cannot be
  packed again after the injection pass, is returned as it was given: the promise
  resolves (nothing is thrown to the caller) and its value is the input blob itself.
  The archive library is taken to be defined or loadable, the precondition under which
  the \<^verbatim>\<open>try\<close> block is reached.
\<close>

theorem unusable_archive_returns_input:
  assumes "jszip_defined pg \<or> loadScript_resolves pg"
    and "(\<exists>e. loadAsync lib pptxBlob = Inl e) \<or>
         (\<exists>z z' e. loadAsync lib pptxBlob = Inr z \<and> injectTransitions z = Inr z' \<and>
            generateAsync lib z' = Inl e)"
  shows "applyTransitions pg lib pptxBlob = Resolved pptxBlob"
proof -
  from assms(2) have "tryApply lib pptxBlob = pptxBlob"
    by (auto simp: tryApply_def)
  with assms(1) show ?thesis by (rule applyTransitions_handled)
qed

theorem unusable_archive_returns_input_witness:
  "(jszip_defined page_with_library \<or> loadScript_resolves page_with_library) \<and>
   loadAsync sample_lib (Junk ''not a zip'') = Inl CorruptArchive \<and>
   applyTransitions page_with_library sample_lib (Junk ''not a zip'') =
     Resolved (Junk ''not a zip'') \<and>
   loadAsync unpackable_lib (Packed deck3) = Inr deck3 \<and>
   injectTransitions deck3 = Inr deck3_transitioned \<and>
   generateAsync unpackable_lib deck3_transitioned = Inl SerializationFailed \<and>
   applyTransitions page_with_library unpackable_lib (Packed deck3) = Resolved (Packed deck3)"
proof -
  have a: "loadAsync sample_lib (Junk ''not a zip'') = Inl CorruptArchive"
    by (simp add: sample_lib_def)
  have b: "loadAsync unpackable_lib (Packed deck3) = Inr deck3"
    by (simp add: unpackable_lib_def)
  have c: "generateAsync unpackable_lib deck3_transitioned = Inl SerializationFailed"
    by (simp add: unpackable_lib_def)
  have "applyTransitions page_with_library sample_lib (Junk ''not a zip'') =
     Resolved (Junk ''not a zip'')"
    using unusable_archive_returns_input [OF page_with_library_usable, of sample_lib "Junk ''not a zip''"] a
    by blast
  moreover have "applyTransitions page_with_library unpackable_lib (Packed deck3) =
     Resolved (Packed deck3)"
    using unusable_archive_returns_input [OF page_with_library_usable, of unpackable_lib "Packed deck3"]
      b c deck3_run
    by blast
  ultimately show ?thesis using a b c deck3_run page_with_library_usable by blast
qed

subsection \<open>Which slide gets which transition\<close>




text \<open>
  Claim C5. The slide at position \<open>i \<ge> 1\<close> of the sorted list, when it holds no
  transition yet, is written back with the fragment of identifier
  \<open>TRANSITION_SEQUENCE ! (i mod 2)\<close> put in front of its closing tag. (The deck may have
  any number of slides.)
\<close>

theorem cyclic_assignment:
  assumes "wf_zip z"
    and "sortSlides (findSlideFiles z) = Inr slideFiles"
    and "injectTransitions z = Inr z'"
    and "1 \<le> i" and "i < length slideFiles"
    and "read_string z (slideFiles ! i) = Inr slideXml"
    and "indexOf slideXml ''<p:transition'' = - 1"
  shows "read_string z' (slideFiles ! i) =
     Inr (replace slideXml ''</p:sld>''
            (concat_closing (TRANSITIONS (TRANSITION_SEQUENCE ! (i mod 2)))))"
proof -
  from assms(2,3) have l: "injectLoop 1 (drop 1 slideFiles) z = Inr z'"
    by (simp add: injectTransitions_def)
  have d: "distinct (drop 1 slideFiles)"
    using wf_zip_distinct [OF assms(1,2)] by (rule distinct_drop)
  from assms(4,5) have k: "i - 1 < length (drop 1 slideFiles)" by simp
  from assms(4,5) have nth: "drop 1 slideFiles ! (i - 1) = slideFiles ! i" by simp
  from assms(4) have i: "1 + (i - 1) = i" by simp
  from injectLoop_nth [OF l d k] obtain xml where
    x: "map_of z (slideFiles ! i) = Some (Text xml)"
    and a: "map_of z' (slideFiles ! i) =
       Some (Text (case inject_text i xml of None \<Rightarrow> xml | Some x \<Rightarrow> x))"
    unfolding nth i by blast
  from assms(6) x have "xml = slideXml" by (simp add: read_string_Inr)
  from a show ?thesis
    unfolding \<open>xml = slideXml\<close> using assms(7)
    by (simp add: read_string_Inr inject_text_def sequence_length)
qed

theorem cyclic_assignment_witness:
  "wf_zip deck5 \<and>
   sortSlides (findSlideFiles deck5) =
     Inr [slide_path ''1'', slide_path ''2'', slide_path ''3'', slide_path ''4'', slide_path ''5''] \<and>
   injectTransitions deck5 = Inr deck5_transitioned \<and>
   read_string deck5 (slide_path ''2'') = Inr ''<p:sld>b</p:sld>'' \<and>
   indexOf ''<p:sld>b</p:sld>'' ''<p:transition'' = - 1 \<and>
   TRANSITIONS (TRANSITION_SEQUENCE ! 1) = Some push_xml \<and>
   TRANSITIONS (TRANSITION_SEQUENCE ! 0) = Some morph_xml \<and>
   read_string deck5_transitioned (slide_path ''2'') = Inr (''<p:sld>b'' @ push_xml @ ''</p:sld>'') \<and>
   read_string deck5_transitioned (slide_path ''3'') = Inr (''<p:sld>c'' @ morph_xml @ ''</p:sld>'') \<and>
   read_string deck5_transitioned (slide_path ''4'') = Inr (''<p:sld>d'' @ push_xml @ ''</p:sld>'') \<and>
   read_string deck5_transitioned (slide_path ''5'') = Inr (''<p:sld>e'' @ morph_xml @ ''</p:sld>'')"
proof -
  let ?ps = "[slide_path ''1'', slide_path ''2'', slide_path ''3'', slide_path ''4'', slide_path ''5'']"
  have t1: "TRANSITIONS (TRANSITION_SEQUENCE ! 1) = Some push_xml"
    and t0: "TRANSITIONS (TRANSITION_SEQUENCE ! 0) = Some morph_xml"
    by (simp_all add: TRANSITION_SEQUENCE_def TRANSITIONS_def)
  have r: "read_string deck5 (?ps ! 1) = Inr ''<p:sld>b</p:sld>''"
    "read_string deck5 (?ps ! 2) = Inr ''<p:sld>c</p:sld>''"
    "read_string deck5 (?ps ! 3) = Inr ''<p:sld>d</p:sld>''"
    "read_string deck5 (?ps ! 4) = Inr ''<p:sld>e</p:sld>''"
    by (simp_all add: read_string_def deck5_def slide_path_def)
  have m: "indexOf ''<p:sld>b</p:sld>'' ''<p:transition'' = - 1"
    "indexOf ''<p:sld>c</p:sld>'' ''<p:transition'' = - 1"
    "indexOf ''<p:sld>d</p:sld>'' ''<p:transition'' = - 1"
    "indexOf ''<p:sld>e</p:sld>'' ''<p:transition'' = - 1"
    by simp_all
  note c = cyclic_assignment [OF deck5_wf deck5_slides deck5_run]
  have "read_string deck5_transitioned (?ps ! 1) =
      Inr (replace ''<p:sld>b</p:sld>'' ''</p:sld>'' (concat_closing (TRANSITIONS (TRANSITION_SEQUENCE ! (1 mod 2)))))"
    by (rule c [OF _ _ r(1) m(1)]) simp_all
  moreover have "read_string deck5_transitioned (?ps ! 2) =
      Inr (replace ''<p:sld>c</p:sld>'' ''</p:sld>'' (concat_closing (TRANSITIONS (TRANSITION_SEQUENCE ! (2 mod 2)))))"
    by (rule c [OF _ _ r(2) m(2)]) simp_all
  moreover have "read_string deck5_transitioned (?ps ! 3) =
      Inr (replace ''<p:sld>d</p:sld>'' ''</p:sld>'' (concat_closing (TRANSITIONS (TRANSITION_SEQUENCE ! (3 mod 2)))))"
    by (rule c [OF _ _ r(3) m(3)]) simp_all
  moreover have "read_string deck5_transitioned (?ps ! 4) =
      Inr (replace ''<p:sld>e</p:sld>'' ''</p:sld>'' (concat_closing (TRANSITIONS (TRANSITION_SEQUENCE ! (4 mod 2)))))"
    by (rule c [OF _ _ r(4) m(4)]) simp_all
  ultimately show ?thesis
    using deck5_wf deck5_slides deck5_run r(1) m(1) t0 t1
    by (simp add: concat_closing_def)
qed

subsection \<open>The first slide\<close>

text \<open>
  Claim C6. The slide at position 0 of the sorted list keeps its content when the
  injection pass completes. (When it does not, the engine returns the blob it was
  given.)
\<close>

theorem first_slide_unchanged:
  assumes "wf_zip z"
    and "sortSlides (findSlideFiles z) = Inr (first # others)"
    and "injectTransitions z = Inr z'"
  shows "map_of z' first = map_of z first"
proof -
  from assms(2,3) have l: "injectLoop 1 others z = Inr z'"
    by (simp add: injectTransitions_def)
  from wf_zip_distinct [OF assms(1,2)] have "first \<notin> set others" by simp
  with l show ?thesis by (rule injectLoop_frame)
qed

theorem first_slide_unchanged_witness:
  "wf_zip deck3 \<and>
   sortSlides (findSlideFiles deck3) = Inr [slide_path ''1'', slide_path ''2'', slide_path ''3''] \<and>
   injectTransitions deck3 = Inr deck3_transitioned \<and>
   map_of deck3_transitioned (slide_path ''1'') = Some (Text ''<p:sld>a</p:sld>'') \<and>
   map_of deck3 (slide_path ''1'') = Some (Text ''<p:sld>a</p:sld>'')"
proof -
  have "map_of deck3 (slide_path ''1'') = Some (Text ''<p:sld>a</p:sld>'')"
    by (simp add: deck3_def)
  with first_slide_unchanged [OF deck3_wf deck3_slides deck3_run] deck3_wf deck3_slides deck3_run
  show ?thesis by simp
qed

subsection \<open>Running twice\<close>

text \<open>
  Claim C3. Running the injection pass on the package a first pass produced gives that
  same package again: no slide gets a second fragment.
\<close>

theorem second_run_changes_nothing:
  assumes "wf_zip z" and "injectTransitions z = Inr z1"
  shows "injectTransitions z1 = Inr z1"
proof -
  from injectTransitions_Inr [OF assms(2)] obtain slideFiles where
    s: "sortSlides (findSlideFiles z) = Inr slideFiles"
    and l: "injectLoop 1 (drop 1 slideFiles) z = Inr z1"
    by blast
  have "map fst z1 = map fst z" using l by (rule injectLoop_paths)
  then have s1: "sortSlides (findSlideFiles z1) = Inr slideFiles"
    using s by (simp add: findSlideFiles_def)
  have d: "distinct (drop 1 slideFiles)"
    using wf_zip_distinct [OF assms(1) s] by (rule distinct_drop)
  have "injectLoop 1 (drop 1 slideFiles) z1 = Inr z1"
  proof (rule injectLoop_settled)
    fix k assume k: "k < length (drop 1 slideFiles)"
    from injectLoop_nth [OF l d k] obtain xml where
      after: "map_of z1 (drop 1 slideFiles ! k) =
        Some (Text (case inject_text (1 + k) xml of None \<Rightarrow> xml | Some x \<Rightarrow> x))"
      by blast
    show "\<exists>t. map_of z1 (drop 1 slideFiles ! k) = Some (Text t) \<and>
          (inject_text (1 + k) t = None \<or> inject_text (1 + k) t = Some t)"
    proof (cases "inject_text (1 + k) xml")
      case None
      with after show ?thesis by simp
    next
      case (Some y)
      with after have "map_of z1 (drop 1 slideFiles ! k) = Some (Text y)" by simp
      moreover from inject_text_Some [OF Some]
      have "inject_text (1 + k) y = None \<or> inject_text (1 + k) y = Some y"
        using Some by auto
      ultimately show ?thesis by blast
    qed
  qed
  with s1 show ?thesis by (simp add: injectTransitions_def)
qed

theorem second_run_changes_nothing_witness:
  "wf_zip deck3 \<and> injectTransitions deck3 = Inr deck3_transitioned \<and>
   injectTransitions deck3_transitioned = Inr deck3_transitioned"
  using second_run_changes_nothing [OF deck3_wf deck3_run] deck3_wf deck3_run by blast

subsection \<open>A slide without a closing tag\<close>

text \<open>
  Claim C9. A slide whose text holds no closing \<^verbatim>\<open></p:sld>\<close> tag keeps its text; this
  is no failure, and the pass goes on: when every slide after the first can be read,
  the injection pass completes, and each of those slides ends up with its own text if
  it has no closing tag, and with what the loop body makes of it otherwise.
\<close>

theorem unclosed_slide_left_alone:
  assumes "wf_zip z"
    and "sortSlides (findSlideFiles z) = Inr slideFiles"
    and "\<forall>p\<in>set (drop 1 slideFiles). \<exists>xml. map_of z p = Some (Text xml)"
  shows "\<exists>z'. injectTransitions z = Inr z' \<and>
     (\<forall>i xml. 1 \<le> i \<and> i < length slideFiles \<and> map_of z (slideFiles ! i) = Some (Text xml) \<longrightarrow>
        map_of z' (slideFiles ! i) =
          Some (Text (if indexOf xml ''</p:sld>'' = - 1 then xml
                      else (case inject_text i xml of None \<Rightarrow> xml | Some y \<Rightarrow> y))))"
proof -
  from assms(3) obtain z' where l: "injectLoop 1 (drop 1 slideFiles) z = Inr z'"
    using injectLoop_succeeds [of "drop 1 slideFiles" z 1] by blast
  then have run: "injectTransitions z = Inr z'"
    by (simp add: injectTransitions_def assms(2))
  have d: "distinct (drop 1 slideFiles)"
    using wf_zip_distinct [OF assms(1,2)] by (rule distinct_drop)
  have "map_of z' (slideFiles ! i) =
          Some (Text (if indexOf xml ''</p:sld>'' = - 1 then xml
                      else (case inject_text i xml of None \<Rightarrow> xml | Some y \<Rightarrow> y)))"
    if i: "1 \<le> i" "i < length slideFiles"
      and x: "map_of z (slideFiles ! i) = Some (Text xml)" for i xml
  proof -
    from i have k: "i - 1 < length (drop 1 slideFiles)" by simp
    from i have nth: "drop 1 slideFiles ! (i - 1) = slideFiles ! i" by simp
    from i have i': "1 + (i - 1) = i" by simp
    from injectLoop_nth [OF l d k] obtain y where
      y: "map_of z (slideFiles ! i) = Some (Text y)"
      and a: "map_of z' (slideFiles ! i) =
         Some (Text (case inject_text i y of None \<Rightarrow> y | Some x \<Rightarrow> x))"
      unfolding nth i' by blast
    from x y have "y = xml" by simp
    show ?thesis
    proof (cases "indexOf xml ''</p:sld>'' = - 1")
      case True
      with a show ?thesis unfolding \<open>y = xml\<close> by (simp add: unclosed_text_kept)
    next
      case False
      with a show ?thesis unfolding \<open>y = xml\<close> by simp
    qed
  qed
  with run show ?thesis by blast
qed

theorem unclosed_slide_left_alone_witness:
  "wf_zip deck3_unclosed \<and>
   sortSlides (findSlideFiles deck3_unclosed) =
     Inr [slide_path ''1'', slide_path ''2'', slide_path ''3''] \<and>
   map_of deck3_unclosed (slide_path ''2'') = Some (Text ''<p:sld>b'') \<and>
   map_of deck3_unclosed (slide_path ''3'') = Some (Text ''<p:sld>c</p:sld>'') \<and>
   indexOf ''<p:sld>b'' ''</p:sld>'' = - 1 \<and>
   injectTransitions deck3_unclosed = Inr deck3_unclosed_transitioned \<and>
   map_of deck3_unclosed_transitioned (slide_path ''2'') = Some (Text ''<p:sld>b'') \<and>
   map_of deck3_unclosed_transitioned (slide_path ''3'') =
     Some (Text (''<p:sld>c'' @ morph_xml @ ''</p:sld>''))"
proof -
  let ?ps = "[slide_path ''1'', slide_path ''2'', slide_path ''3'']"
  have m2: "map_of deck3_unclosed (slide_path ''2'') = Some (Text ''<p:sld>b'')"
    and m3: "map_of deck3_unclosed (slide_path ''3'') = Some (Text ''<p:sld>c</p:sld>'')"
    by (simp_all add: deck3_unclosed_def slide_path_def)
  have h: "\<forall>p\<in>set (drop 1 ?ps). \<exists>xml. map_of deck3_unclosed p = Some (Text xml)"
    using m2 m3 by simp
  have u: "indexOf ''<p:sld>b'' ''</p:sld>'' = - 1" by simp
  from unclosed_slide_left_alone [OF deck3_unclosed_wf deck3_unclosed_slides h]
  obtain z' where run: "injectTransitions deck3_unclosed = Inr z'"
    and each: "\<And>i xml. 1 \<le> i \<Longrightarrow> i < length ?ps \<Longrightarrow>
        map_of deck3_unclosed (?ps ! i) = Some (Text xml) \<Longrightarrow>
        map_of z' (?ps ! i) =
          Some (Text (if indexOf xml ''</p:sld>'' = - 1 then xml
                      else (case inject_text i xml of None \<Rightarrow> xml | Some y \<Rightarrow> y)))"
    by blast
  from run deck3_unclosed_run have z': "z' = deck3_unclosed_transitioned" by simp
  have "map_of z' (?ps ! 1) = Some (Text ''<p:sld>b'')"
    using each [of 1 "''<p:sld>b''"] m2 by simp
  moreover have "map_of z' (?ps ! 2) = Some (Text (''<p:sld>c'' @ morph_xml @ ''</p:sld>''))"
    using each [of 2 "''<p:sld>c</p:sld>''"] m3 by (simp add: inject_text_parity)
  ultimately show ?thesis
    using deck3_unclosed_wf deck3_unclosed_slides m2 m3 u deck3_unclosed_run
    unfolding z' by simp
qed

subsection \<open>The order of the slides\<close>

text \<open>
  Claim C7. The slides are processed in ascending order of the number in their path,
  not in the order of the paths as strings: sorting never fails, the sorted list
  holds the same paths, it ascends by ordinal, strictly when the ordinals are
  distinct, and whenever the slide paths of the package are those with the ordinals 1
  to 11, in whatever order they are enumerated, the order of processing is 1, 2, ...,
  10, 11.
\<close>

theorem slides_in_numeric_order:
  assumes "wf_zip z"
  shows "\<exists>slideFiles. sortSlides (findSlideFiles z) = Inr slideFiles \<and>
     mset slideFiles = mset (findSlideFiles z) \<and>
     sorted_wrt (\<lambda>a b. \<exists>m n. slide_number a = Some m \<and> slide_number b = Some n \<and> m \<le> n)
       slideFiles \<and>
     (distinct (map slide_number (findSlideFiles z)) \<longrightarrow>
        sorted_wrt (\<lambda>a b. \<exists>m n. slide_number a = Some m \<and> slide_number b = Some n \<and> m < n)
          slideFiles) \<and>
     (mset (findSlideFiles z) = mset slides_1_to_11 \<longrightarrow> slideFiles = slides_1_to_11)"
proof -
  have "\<exists>qs. sortSlides (findSlideFiles z) = Inr qs"
    by (rule sortSlides_total) (rule findSlideFiles_slide_path)
  then obtain qs where qs: "sortSlides (findSlideFiles z) = Inr qs" by blast
  have m: "mset qs = mset (findSlideFiles z)" using qs by (rule sortSlides_mset)
  have le: "sorted_wrt (\<lambda>a b. \<exists>m n. slide_number a = Some m \<and> slide_number b = Some n \<and> m \<le> n) qs"
    using qs by (rule sortSlides_sorted) (rule findSlideFiles_slide_path)
  have strict: "sorted_wrt (\<lambda>a b. \<exists>m n. slide_number a = Some m \<and> slide_number b = Some n \<and> m < n) qs"
    if d: "distinct (map slide_number (findSlideFiles z))"
  proof -
    have "mset (map slide_number qs) = mset (map slide_number (findSlideFiles z))"
      using m by (metis mset_map)
    with d have "distinct (map slide_number qs)" by (metis mset_eq_imp_distinct_iff)
    with le show ?thesis by (rule sorted_strict_when_distinct)
  qed
  have "qs = slides_1_to_11" if e: "mset (findSlideFiles z) = mset slides_1_to_11"
  proof -
    have "mset (map slide_number (findSlideFiles z)) = mset (map slide_number slides_1_to_11)"
      using e by (metis mset_map)
    moreover have "distinct (map slide_number slides_1_to_11)"
      unfolding slides_1_to_11_numbers by simp
    ultimately have "distinct (map slide_number (findSlideFiles z))"
      by (metis mset_eq_imp_distinct_iff)
    then have "sorted_wrt (\<lambda>a b. \<exists>m n. slide_number a = Some m \<and> slide_number b = Some n \<and> m < n) qs"
      by (rule strict)
    moreover have "set qs = set slides_1_to_11"
      using m e by (metis mset_eq_setD)
    ultimately show ?thesis using slides_1_to_11_sorted by (intro strictly_sorted_unique)
  qed
  with qs m le strict show ?thesis by blast
qed

theorem slides_in_numeric_order_witness:
  "wf_zip deck11 \<and>
   findSlideFiles deck11 =
     [slide_path ''1'', slide_path ''10'', slide_path ''11'', slide_path ''2'',
      slide_path ''3'', slide_path ''4'', slide_path ''5'', slide_path ''6'',
      slide_path ''7'', slide_path ''8'', slide_path ''9''] \<and>
   distinct (map slide_number (findSlideFiles deck11)) \<and>
   mset (findSlideFiles deck11) = mset slides_1_to_11 \<and>
   sortSlides (findSlideFiles deck11) = Inr slides_1_to_11"
proof -
  have f: "findSlideFiles deck11 =
     [slide_path ''1'', slide_path ''10'', slide_path ''11'', slide_path ''2'',
      slide_path ''3'', slide_path ''4'', slide_path ''5'', slide_path ''6'',
      slide_path ''7'', slide_path ''8'', slide_path ''9'']"
    by (simp add: eval_paths deck11_def)
  have e: "mset (findSlideFiles deck11) = mset slides_1_to_11" by (rule deck11_files)
  then have "mset (map slide_number (findSlideFiles deck11)) = mset (map slide_number slides_1_to_11)"
    by (metis mset_map)
  moreover have "distinct (map slide_number slides_1_to_11)"
    unfolding slides_1_to_11_numbers by simp
  ultimately have d: "distinct (map slide_number (findSlideFiles deck11))"
    by (metis mset_eq_imp_distinct_iff)
  from slides_in_numeric_order [OF deck11_wf] e
  have "sortSlides (findSlideFiles deck11) = Inr slides_1_to_11" by blast
  with deck11_wf f d e show ?thesis by blast
qed

end
